theory Spec2Isabelle
  imports Complex_Main "HOL-Library.Log_Nat"
begin

section \<open>Python strings\<close>

text \<open>
  A Python \<open>str\<close> is a sequence of Unicode code points and \<open>len\<close> counts code points,
  so a string is a list of code points. \<open>str_of\<close> reads an ASCII literal.
\<close>

type_synonym pychar = nat
type_synonym pystr = "nat list"

definition str_of :: "string \<Rightarrow> pystr" where
  "str_of s = map of_char s"

text \<open>
  \<open>str.isspace\<close>, \<open>str.strip()\<close> and the regular expression class \<open>\s\<close> of a
  \<open>str\<close> pattern all use the interpreter's one whitespace test: the code points of
  bidirectional class WS, B or S, or of general category Zs.
\<close>

definition isspace :: "pychar \<Rightarrow> bool" where
  "isspace c \<longleftrightarrow>
     (9 \<le> c \<and> c \<le> 13) \<or> (28 \<le> c \<and> c \<le> 32) \<or> c = 133 \<or> c = 160 \<or> c = 5760 \<or>
     (8192 \<le> c \<and> c \<le> 8202) \<or> c = 8232 \<or> c = 8233 \<or> c = 8239 \<or> c = 8287 \<or>
     c = 12288"

abbreviation NL :: pychar where "NL \<equiv> 10"
abbreviation SP :: pychar where "SP \<equiv> 32"
abbreviation DOT :: pychar where "DOT \<equiv> 46"

text \<open>\<open>s.strip()\<close>: whitespace removed from both ends.\<close>

definition strip :: "pystr \<Rightarrow> pystr" where
  "strip s = rev (dropWhile isspace (rev (dropWhile isspace s)))"

text \<open>\<open>s.replace(old, new)\<close> for a one-character \<open>old\<close>.\<close>

definition replace1 :: "pychar \<Rightarrow> pystr \<Rightarrow> pystr \<Rightarrow> pystr" where
  "replace1 old new s = concat (map (\<lambda>c. if c = old then new else [c]) s)"

text \<open>
  \<open>s.split(sep)\<close> for a one-character \<open>sep\<close>: the fragments between the separators,
  empty ones kept, so the result always has one fragment more than \<open>s\<close> has separators.
\<close>

function split_on :: "pychar \<Rightarrow> pystr \<Rightarrow> pystr list" where
  "split_on sep s =
     (case dropWhile (\<lambda>c. c \<noteq> sep) s of
        [] \<Rightarrow> [s]
      | _ # rest \<Rightarrow> takeWhile (\<lambda>c. c \<noteq> sep) s # split_on sep rest)"
  by pat_completeness auto
termination
proof (relation "measure (\<lambda>(sep, s). length s)")
  show "wf (measure (\<lambda>(sep, s). length s))" by simp
next
  fix sep :: pychar and s :: pystr and x rest
  assume "dropWhile (\<lambda>c. c \<noteq> sep) s = x # rest"
  then have "length (dropWhile (\<lambda>c. c \<noteq> sep) s) = Suc (length rest)" by simp
  moreover have "length (dropWhile (\<lambda>c. c \<noteq> sep) s) \<le> length s"
    by (rule length_dropWhile_le)
  ultimately show "((sep, rest), (sep, s)) \<in> measure (\<lambda>(sep, s). length s)" by simp
qed

declare split_on.simps [simp del]

text \<open>\<open>sep.join(xs)\<close>.\<close>

fun join :: "pystr \<Rightarrow> pystr list \<Rightarrow> pystr" where
  "join sep [] = []"
| "join sep [x] = x"
| "join sep (x # y # zs) = x @ sep @ join sep (y # zs)"

section \<open>The chunker (\<open>split_text\<close> of main.py)\<close>

text \<open>
  \<^verbatim>\<open>sentences = [s.strip() + '.' for s in text.replace('\n', ' ').split('.') if s.strip()]\<close>
\<close>

definition sentences :: "pystr \<Rightarrow> pystr list" where
  "sentences text =
     map (\<lambda>s. strip s @ [DOT])
       (filter (\<lambda>s. strip s \<noteq> []) (split_on DOT (replace1 NL [SP] text)))"

text \<open>
  The loop over the sentences, with the list \<open>chunks\<close> and the string
  \<open>current_chunk\<close> as its state; the first equation is the code after the loop.
  \<open>chunk_size\<close> is a Python int, so any integer.
\<close>

fun chunk_loop :: "int \<Rightarrow> pystr list \<Rightarrow> pystr list \<Rightarrow> pystr \<Rightarrow> pystr list" where
  "chunk_loop chunk_size [] chunks current_chunk =
     (if current_chunk \<noteq> [] then chunks @ [current_chunk] else chunks)"
| "chunk_loop chunk_size (sentence # rest) chunks current_chunk =
     (if int (length current_chunk) + int (length sentence) > chunk_size \<and> current_chunk \<noteq> []
      then chunk_loop chunk_size rest (chunks @ [current_chunk]) sentence
      else if current_chunk \<noteq> []
        then chunk_loop chunk_size rest chunks (current_chunk @ [SP] @ sentence)
        else chunk_loop chunk_size rest chunks sentence)"

definition split_text :: "pystr \<Rightarrow> int \<Rightarrow> pystr list" where
  "split_text text chunk_size = chunk_loop chunk_size (sentences text) [] []"


section \<open>Regular expressions (\<open>re.sub\<close>)\<close>

text \<open>
  The three patterns of \<open>clean_text\<close> are sequences of character classes, each taken
  once, or under the greedy \<open>*\<close> or \<open>+\<close>. \<open>re_match r s\<close> is the length of the match
  of \<open>r\<close> at the start of \<open>s\<close>, found as the backtracking matcher of Python finds it:
  a starred class first takes one character more, and gives it back when the rest of
  the pattern then fails.
\<close>

datatype quant = One | Star | Plus

type_synonym regex = "((pychar \<Rightarrow> bool) \<times> quant) list"

fun re_match :: "regex \<Rightarrow> pystr \<Rightarrow> nat option" where
  "re_match [] s = Some 0"
| "re_match ((cls, One) # r) [] = None"
| "re_match ((cls, One) # r) (c # cs) =
     (if cls c then map_option Suc (re_match r cs) else None)"
| "re_match ((cls, Plus) # r) [] = None"
| "re_match ((cls, Plus) # r) (c # cs) =
     (if cls c then map_option Suc (re_match ((cls, Star) # r) cs) else None)"
| "re_match ((cls, Star) # r) [] = re_match r []"
| "re_match ((cls, Star) # r) (c # cs) =
     (if cls c
      then (case re_match ((cls, Star) # r) cs of
              Some n \<Rightarrow> Some (Suc n)
            | None \<Rightarrow> re_match r (c # cs))
      else re_match r (c # cs))"

text \<open>
  \<open>re.sub(pattern, repl, s)\<close>: the leftmost non-overlapping matches are replaced, scanning
  from the left; \<open>repl\<close> is given the matched text. An empty match is replaced too and
  the scan moves on by one character, as Python 3.7 and later do.
\<close>

function re_sub :: "regex \<Rightarrow> (pystr \<Rightarrow> pystr) \<Rightarrow> pystr \<Rightarrow> pystr" where
  "re_sub r repl [] = (case re_match r [] of None \<Rightarrow> [] | Some n \<Rightarrow> repl [])"
| "re_sub r repl (c # cs) =
     (case re_match r (c # cs) of
        None \<Rightarrow> c # re_sub r repl cs
      | Some 0 \<Rightarrow> repl [] @ c # re_sub r repl cs
      | Some (Suc n) \<Rightarrow> repl (take (Suc n) (c # cs)) @ re_sub r repl (drop n cs))"
  by pat_completeness auto
termination
  by (relation "measure (\<lambda>(r, repl, s). length s)") auto

section \<open>The normalizer (\<open>clean_text\<close> of extractors.py)\<close>

text \<open>
  Two tables of the interpreter's Unicode database are not part of the repository and
  are parameters of the model: the decimal digits (general category Nd), which the
  class \<open>\d\<close> of a \<open>str\<close> pattern matches, and the lower-casing of \<open>str.lower\<close>.
\<close>

record unicode_db =
  isdecimal :: "pychar \<Rightarrow> bool"
  lower :: "pystr \<Rightarrow> pystr"

text \<open>The pattern \<^verbatim>\<open>\s+\<close>.\<close>

definition whitespace_run :: regex where
  "whitespace_run = [(isspace, Plus)]"

text \<open>The pattern \<^verbatim>\<open>\n\s*\d+\s*\n\<close>.\<close>

definition page_number :: "unicode_db \<Rightarrow> regex" where
  "page_number db =
     [((\<lambda>c. c = NL), One), (isspace, Star), (isdecimal db, Plus), (isspace, Star),
      ((\<lambda>c. c = NL), One)]"

text \<open>
  The pattern \<^verbatim>\<open>([.!?])([A-Za-z])\<close> and its replacement \<^verbatim>\<open>\1 \2\<close>; the two groups
  are the first and the second character of the match.
\<close>

definition is_punct :: "pychar \<Rightarrow> bool" where
  "is_punct c \<longleftrightarrow> c = DOT \<or> c = 33 \<or> c = 63"

definition is_letter :: "pychar \<Rightarrow> bool" where
  "is_letter c \<longleftrightarrow> (65 \<le> c \<and> c \<le> 90) \<or> (97 \<le> c \<and> c \<le> 122)"

definition punctuation_letter :: regex where
  "punctuation_letter = [(is_punct, One), (is_letter, One)]"

definition space_between :: "pystr \<Rightarrow> pystr" where
  "space_between m = take 1 m @ [SP] @ take 1 (drop 1 m)"

text \<open>The ligatures U+FB01 and U+FB02.\<close>

abbreviation LIG_FI :: pychar where "LIG_FI \<equiv> 64257"
abbreviation LIG_FL :: pychar where "LIG_FL \<equiv> 64258"

definition clean_text :: "unicode_db \<Rightarrow> pystr \<Rightarrow> pystr" where
  "clean_text db text =
     (let text = re_sub whitespace_run (\<lambda>m. [SP]) text;
          text = re_sub (page_number db) (\<lambda>m. [NL]) text;
          text = replace1 LIG_FL (str_of ''fl'') (replace1 LIG_FI (str_of ''fi'') text);
          text = re_sub punctuation_letter space_between text
      in strip text)"

text \<open>The property of a string that no two neighbouring characters are both whitespace.\<close>

fun no_ws_run :: "pystr \<Rightarrow> bool" where
  "no_ws_run (a # b # s) = (\<not> (isspace a \<and> isspace b) \<and> no_ws_run (b # s))"
| "no_ws_run s = True"

section \<open>Extraction (\<open>extract_text\<close> of extractors.py)\<close>

text \<open>
  \<open>s.rfind(c)\<close>: the highest index of \<open>c\<close> in \<open>s\<close>, \<open>None\<close> for Python's \<open>-1\<close>.
\<close>

definition rfind :: "pychar \<Rightarrow> pystr \<Rightarrow> nat option" where
  "rfind c s =
     (if c \<in> set s then Some (length s - 1 - length (takeWhile (\<lambda>x. x \<noteq> c) (rev s))) else None)"

abbreviation SLASH :: pychar where "SLASH \<equiv> 47"

text \<open>
  \<open>os.path.splitext(p)[1]\<close> on POSIX: the text from the last dot on, when that dot lies
  in the last component of the path and some character of the component before it is
  not a dot; otherwise the empty string.
\<close>

definition splitext_ext :: "pystr \<Rightarrow> pystr" where
  "splitext_ext p =
     (case rfind DOT p of
        None \<Rightarrow> []
      | Some dotIndex \<Rightarrow>
          (let filenameIndex = (case rfind SLASH p of None \<Rightarrow> 0 | Some sepIndex \<Rightarrow> sepIndex + 1)
           in if filenameIndex \<le> dotIndex \<and>
                 list_ex (\<lambda>c. c \<noteq> DOT) (take (dotIndex - filenameIndex) (drop filenameIndex p))
              then drop dotIndex p else []))"

text \<open>
  The exceptions that leave \<open>extract_text\<close>: \<open>FileNotFoundError\<close> of
  \<open>BaseExtractor.extract\<close>, \<open>ValueError\<close> of \<open>get_extractor\<close>, and whatever the EPUB and
  HTML libraries raise.
\<close>

datatype extract_error = NotFound | UnsupportedFormat | LibraryError

datatype extractor = EpubExtractor

definition get_extractor :: "unicode_db \<Rightarrow> pystr \<Rightarrow> extract_error + extractor" where
  "get_extractor db file_path =
     (let ext = lower db (splitext_ext file_path)
      in if ext = str_of ''.epub'' then Inr EpubExtractor else Inl UnsupportedFormat)"

text \<open>
  The file system and the libraries, as far as extraction reads them: whether a path
  exists; the items \<open>epub.read_epub\<close> gives for a path (\<open>None\<close> when it raises); for
  every item whether it is an \<open>ITEM_DOCUMENT\<close> and the text that decoding and
  \<open>BeautifulSoup.get_text\<close> give for it (\<open>None\<close> when one of them raises).
\<close>

record item =
  is_document :: bool
  item_text :: "pystr option"

record files =
  path_exists :: "pystr \<Rightarrow> bool"
  read_epub :: "pystr \<Rightarrow> item list option"

text \<open>The loop of \<open>EpubExtractor._extract\<close>, with the list \<open>text\<close> as its state.\<close>

fun collect_items :: "item list \<Rightarrow> pystr list \<Rightarrow> extract_error + pystr list" where
  "collect_items [] acc = Inr acc"
| "collect_items (it # rest) acc =
     (if is_document it
      then (case item_text it of
              None \<Rightarrow> Inl LibraryError
            | Some t \<Rightarrow> collect_items rest (acc @ [t]))
      else collect_items rest acc)"

definition epub_extract :: "files \<Rightarrow> pystr \<Rightarrow> extract_error + pystr" where
  "epub_extract fs file_path =
     (case read_epub fs file_path of
        None \<Rightarrow> Inl LibraryError
      | Some items \<Rightarrow>
          (case collect_items items [] of
             Inl e \<Rightarrow> Inl e
           | Inr ts \<Rightarrow> Inr (join [NL] ts)))"

text \<open>\<open>BaseExtractor.extract\<close>, for the one extractor there is.\<close>

definition base_extract :: "files \<Rightarrow> extractor \<Rightarrow> pystr \<Rightarrow> extract_error + pystr" where
  "base_extract fs ex file_path =
     (if \<not> path_exists fs file_path then Inl NotFound else epub_extract fs file_path)"

definition extract_text :: "unicode_db \<Rightarrow> files \<Rightarrow> pystr \<Rightarrow> extract_error + pystr" where
  "extract_text db fs file_path =
     (case get_extractor db file_path of
        Inl e \<Rightarrow> Inl e
      | Inr extractor \<Rightarrow>
          (case base_extract fs extractor file_path of
             Inl e \<Rightarrow> Inl e
           | Inr raw_text \<Rightarrow> Inr (clean_text db raw_text)))"

text \<open>
  The tables of the Unicode database cut down to ASCII, for running the model on ASCII
  input, where they agree with the interpreter's.
\<close>

definition ascii_db :: unicode_db where
  "ascii_db =
     \<lparr>isdecimal = (\<lambda>c. 48 \<le> c \<and> c \<le> 57),
      lower = map (\<lambda>c. if 65 \<le> c \<and> c \<le> 90 then c + 32 else c)\<rparr>"

section \<open>Synthesis and assembly (\<open>convert_to_speech\<close> of main.py)\<close>

text \<open>
  \<open>0.5 * sample_rate\<close> converts the int to a double: the nearest value with 53
  significant bits, ties to the even one, and \<open>OverflowError\<close> from \<open>2 ^ 1024\<close> on.
  Halving a double that holds an integer is exact, and \<open>int\<close> cuts the fraction off,
  towards zero. \<open>None\<close> is the \<open>OverflowError\<close>.
\<close>

definition round53 :: "nat \<Rightarrow> nat" where
  "round53 n =
     (if n < 2 ^ 53 then n
      else (let sh = nat (bitlen (int n)) - 53;
                q = n div 2 ^ sh;
                r = n mod 2 ^ sh;
                half = 2 ^ (sh - 1)
            in (if half < r \<or> (r = half \<and> odd q) then q + 1 else q) * 2 ^ sh))"

definition float_of_int :: "int \<Rightarrow> int option" where
  "float_of_int i =
     (let m = round53 (nat \<bar>i\<bar>)
      in if 2 ^ 1024 \<le> m then None else Some (sgn i * int m))"

definition pause_samples :: "int \<Rightarrow> int option" where
  "pause_samples sample_rate =
     map_option (\<lambda>x. sgn x * (\<bar>x\<bar> div 2)) (float_of_int sample_rate)"

text \<open>What the specification writes for the same number: \<open>round(0.5 \<times> sample_rate)\<close>.\<close>

definition spec_pause_samples :: "int \<Rightarrow> int" where
  "spec_pause_samples sample_rate = round (0.5 * real_of_int sample_rate)"

text \<open>
  \<open>np.zeros(n)\<close> raises \<open>ValueError\<close> for a negative \<open>n\<close>, and for an \<open>n\<close> too large
  it raises as well: \<open>ValueError\<close> beyond the largest array dimension, \<open>MemoryError\<close> when
  the machine cannot hold the array. Which sizes fit is a matter of the machine, given by
  \<open>fits\<close>. Samples are of any type with a zero; an audio buffer is a one-dimensional
  array of samples, a list.
\<close>

definition np_zeros :: "(nat \<Rightarrow> bool) \<Rightarrow> int option \<Rightarrow> ('s::zero) list option" where
  "np_zeros fits n =
     (case n of
        None \<Rightarrow> None
      | Some k \<Rightarrow> if k < 0 \<or> \<not> fits (nat k) then None else Some (replicate (nat k) 0))"

text \<open>
  One call of the pipeline: the buffers its generator yields, in order, and whether it
  raises after the last of them (a call that raises at once yields none). The engine:
  whether the module was found, the constructor \<open>KPipeline(lang_code)\<close> (\<open>None\<close> when it
  raises) giving the pipeline, called with the chunk and the voice at speed 1. The
  libraries around it: which sizes \<open>np.zeros\<close> can make, whether \<open>np.concatenate\<close> can
  join a list of buffers (it raises when memory does not suffice; when it can, the
  result is \<open>concat\<close> of the list), and \<open>sf.write\<close>, false when it raises.
\<close>

datatype 's gen = Gen (gen_buffers: "'s list list") (gen_raises: bool)

record 's engine =
  kokoro_available :: bool
  KPipeline :: "pystr \<Rightarrow> (pystr \<Rightarrow> pystr \<Rightarrow> 's gen) option"
  np_zeros_fits :: "nat \<Rightarrow> bool"
  np_concatenate_fits :: "'s list list \<Rightarrow> bool"
  sf_write :: "pystr \<Rightarrow> 's list \<Rightarrow> int \<Rightarrow> bool"

text \<open>
  \<open>convert_to_speech\<close> returns a bool and prints why it failed; the failures are told
  apart by the message: Kokoro not available, \<open>Error processing chunk k\<close> (with the number
  \<open>i + 1\<close> that is printed), \<open>No audio was generated\<close>, and \<open>Error in TTS conversion\<close> of
  the outer handler. Next to the result the model keeps the chunks the pipeline was
  called with, in call order, and the file written.
\<close>

datatype failure = EngineUnavailable | SynthesisFailure nat | NoAudioProduced | ConversionError

record 's outcome =
  result :: "failure + unit"
  synthesized :: "pystr list"
  written :: "(pystr \<times> 's list \<times> int) option"

text \<open>
  The loop over the chunks, with the index \<open>i\<close>, the list \<open>all_audio\<close> and the calls made
  so far as its state. Everything in the loop body is inside the inner \<open>try\<close>.
\<close>

fun synth_loop ::
  "(nat \<Rightarrow> bool) \<Rightarrow> (pystr \<Rightarrow> pystr \<Rightarrow> ('s::zero) gen) \<Rightarrow> pystr \<Rightarrow> int \<Rightarrow> nat \<Rightarrow>
     pystr list \<Rightarrow> 's list list \<Rightarrow> pystr list \<Rightarrow> (nat + 's list list) \<times> pystr list" where
  "synth_loop fits pipeline voice sample_rate i [] all_audio calls = (Inr all_audio, calls)"
| "synth_loop fits pipeline voice sample_rate i (chunk # rest) all_audio calls =
     (case pipeline chunk voice of
        Gen bufs raised \<Rightarrow>
          if raised then (Inl (i + 1), calls @ [chunk])
          else (case np_zeros fits (pause_samples sample_rate) of
                  None \<Rightarrow> (Inl (i + 1), calls @ [chunk])
                | Some silence \<Rightarrow>
                    synth_loop fits pipeline voice sample_rate (i + 1) rest
                      (all_audio @ bufs @ [silence]) (calls @ [chunk])))"


text \<open>\<^verbatim>\<open>if max_chunks is not None and max_chunks > 0: chunks = chunks[:max_chunks]\<close>\<close>

definition limit_chunks :: "int option \<Rightarrow> pystr list \<Rightarrow> pystr list" where
  "limit_chunks max_chunks chunks =
     (case max_chunks of
        None \<Rightarrow> chunks
      | Some m \<Rightarrow> if m > 0 then take (nat m) chunks else chunks)"

definition convert_to_speech ::
  "('s::zero) engine \<Rightarrow> pystr \<Rightarrow> pystr \<Rightarrow> pystr \<Rightarrow> int \<Rightarrow> int \<Rightarrow> pystr \<Rightarrow> int option \<Rightarrow> 's outcome" where
  "convert_to_speech env text output_file voice chunk_size sample_rate lang_code max_chunks =
     (if \<not> kokoro_available env
      then \<lparr>result = Inl EngineUnavailable, synthesized = [], written = None\<rparr>
      else
        (let chunks = limit_chunks max_chunks (split_text text chunk_size)
         in case KPipeline env lang_code of
              None \<Rightarrow> \<lparr>result = Inl ConversionError, synthesized = [], written = None\<rparr>
            | Some pipeline \<Rightarrow>
                (case synth_loop (np_zeros_fits env) pipeline voice sample_rate 0 chunks [] [] of
                   (Inl k, calls) \<Rightarrow>
                     \<lparr>result = Inl (SynthesisFailure k), synthesized = calls, written = None\<rparr>
                 | (Inr all_audio, calls) \<Rightarrow>
                     if all_audio \<noteq> []
                     then (if \<not> np_concatenate_fits env all_audio
                           then \<lparr>result = Inl ConversionError, synthesized = calls,
                                 written = None\<rparr>
                           else
                             (let combined_audio = concat all_audio
                              in if sf_write env output_file combined_audio sample_rate
                                 then \<lparr>result = Inr (), synthesized = calls,
                                       written = Some (output_file, combined_audio, sample_rate)\<rparr>
                                 else \<lparr>result = Inl ConversionError, synthesized = calls,
                                       written = None\<rparr>))
                     else \<lparr>result = Inl NoAudioProduced, synthesized = calls, written = None\<rparr>)))"

section \<open>The command line (\<open>main\<close> of main.py)\<close>

text \<open>\<^verbatim>\<open>max_chunks = None if args.max_chunks == 0 else args.max_chunks\<close>\<close>

definition main_max_chunks :: "int option \<Rightarrow> int option" where
  "main_max_chunks m = (if m = Some 0 then None else m)"

record args =
  arg_input :: pystr
  arg_output :: pystr
  arg_voice :: pystr
  arg_chunk_size :: int
  arg_sample_rate :: int
  arg_lang :: pystr
  arg_max_chunks :: "int option"

text \<open>
  \<open>main\<close> after the arguments are parsed: the exit status (\<open>True\<close> for \<open>sys.exit(1)\<close>) and
  the outcome of \<open>convert_to_speech\<close> when it was reached.
\<close>

definition main :: "unicode_db \<Rightarrow> files \<Rightarrow> ('s::zero) engine \<Rightarrow> args \<Rightarrow> bool \<times> 's outcome option" where
  "main db fs env a =
     (if \<not> kokoro_available env then (True, None)
      else if \<not> path_exists fs (arg_input a) then (True, None)
      else if lower db (splitext_ext (arg_input a)) \<noteq> str_of ''.epub'' then (True, None)
      else (case extract_text db fs (arg_input a) of
              Inl e \<Rightarrow> (True, None)
            | Inr text \<Rightarrow>
                (let out = convert_to_speech env text (arg_output a) (arg_voice a)
                             (arg_chunk_size a) (arg_sample_rate a) (arg_lang a)
                             (main_max_chunks (arg_max_chunks a))
                 in (result out \<noteq> Inr (), Some out))))"

section \<open>Inputs to run the model on\<close>

text \<open>
  An engine that is available and never fails to start: a call yields one buffer with
  one sample for every character of the chunk, except that the call for the chunk
  \<open>bad\<close> raises at once; every array fits and every write succeeds. A file system
  without any file, and one with the single book \<open>book.epub\<close> of one document, whose text
  is \<open>A. B. C.\<close>; and the arguments of a command line for that book, with chunk size
  2, sample rate 4 and the cap given.
\<close>

definition test_engine :: "pystr \<Rightarrow> int engine" where
  "test_engine bad =
     \<lparr>kokoro_available = True,
      KPipeline = (\<lambda>lang_code. Some (\<lambda>chunk voice.
                     if chunk = bad then Gen [] True else Gen [map int chunk] False)),
      np_zeros_fits = (\<lambda>n. True),
      np_concatenate_fits = (\<lambda>bufs. True),
      sf_write = (\<lambda>file audio rate. True)\<rparr>"

definition no_files :: files where
  "no_files = \<lparr>path_exists = (\<lambda>p. False), read_epub = (\<lambda>p. None)\<rparr>"



section \<open>Shapes of sentences and chunks\<close>

text \<open>
  The text of a sentence before its period: not empty, without a period or a line
  feed, and with no whitespace at either end.
\<close>

definition sentence_body :: "pystr \<Rightarrow> bool" where
  "sentence_body g \<longleftrightarrow>
     g \<noteq> [] \<and> DOT \<notin> set g \<and> NL \<notin> set g \<and> \<not> isspace (hd g) \<and> \<not> isspace (last g)"

text \<open>A chunk that is not empty, ends with a period and holds no line feed.\<close>

definition chunk_ok :: "pystr \<Rightarrow> bool" where
  "chunk_ok c \<longleftrightarrow> c \<noteq> [] \<and> last c = DOT \<and> NL \<notin> set c"

section \<open>Strings: stripping, splitting, joining\<close>

lemma isspace_SP: "isspace SP" by (simp add: isspace_def)
lemma not_isspace_DOT: "\<not> isspace DOT" by (simp add: isspace_def)

lemma strip_set: "set (strip s) \<subseteq> set s"
proof -
  have "set (strip s) \<subseteq> set (dropWhile isspace s)"
    unfolding strip_def using set_dropWhileD by fastforce
  also have "\<dots> \<subseteq> set s" using set_dropWhileD by fastforce
  finally show ?thesis .
qed

lemma strip_last: "strip s \<noteq> [] \<Longrightarrow> \<not> isspace (last (strip s))"
  unfolding strip_def by (simp add: last_rev hd_dropWhile)

lemma rstrip_prefix: "\<exists>b. t = rev (dropWhile P (rev t)) @ b"
proof -
  have "rev t = takeWhile P (rev t) @ dropWhile P (rev t)" by simp
  then have "t = rev (takeWhile P (rev t) @ dropWhile P (rev t))" by (metis rev_rev_ident)
  then show ?thesis by (metis rev_append)
qed

lemma strip_hd: assumes "strip s \<noteq> []" shows "\<not> isspace (hd (strip s))"
proof -
  let ?t = "dropWhile isspace s"
  obtain b where b: "?t = strip s @ b" unfolding strip_def using rstrip_prefix by blast
  with assms have "hd ?t = hd (strip s)" by (metis hd_append2)
  moreover have "?t \<noteq> []" using b assms by auto
  ultimately show ?thesis using hd_dropWhile by metis
qed

lemma strip_fixed:
  assumes "\<forall>c\<in>set w. isspace c" "g \<noteq> []" "\<not> isspace (hd g)" "\<not> isspace (last g)"
  shows "strip (w @ g) = g"
proof -
  have 1: "dropWhile isspace (w @ g) = g"
    using assms by (cases g) (simp_all add: dropWhile_append)
  have "dropWhile isspace (rev g) = rev g"
    using assms by (simp add: dropWhile_eq_self_iff hd_rev)
  with 1 show ?thesis by (simp add: strip_def)
qed

lemma strip_all_space: "\<forall>c\<in>set w. isspace c \<Longrightarrow> strip w = []"
proof -
  assume "\<forall>c\<in>set w. isspace c"
  then have "dropWhile isspace w = []" by (simp only: dropWhile_eq_Nil_conv)
  then show ?thesis by (simp only: strip_def rev.simps dropWhile.simps)
qed

lemma split_on_none: "sep \<notin> set f \<Longrightarrow> split_on sep f = [f]"
proof -
  assume "sep \<notin> set f"
  then have "dropWhile (\<lambda>c. c \<noteq> sep) f = []" by (auto simp: dropWhile_eq_Nil_conv)
  then show ?thesis by (subst split_on.simps) (simp only: list.case)
qed

lemma split_on_sep: "sep \<notin> set f \<Longrightarrow> split_on sep (f @ sep # rest) = f # split_on sep rest"
proof -
  assume a: "sep \<notin> set f"
  then have "dropWhile (\<lambda>c. c \<noteq> sep) (f @ sep # rest) = sep # rest"
    by (simp add: dropWhile_append3 dropWhile_append)
  moreover have "takeWhile (\<lambda>c. c \<noteq> sep) (f @ sep # rest) = f"
    using a by (simp add: takeWhile_append)
  ultimately show ?thesis by (subst split_on.simps) simp
qed

lemma split_on_frag: "f \<in> set (split_on sep s) \<Longrightarrow> sep \<notin> set f"
proof (induction sep s rule: split_on.induct)
  case (1 sep s)
  show ?case
  proof (cases "dropWhile (\<lambda>c. c \<noteq> sep) s")
    case Nil
    then have "sep \<notin> set s" by (auto simp: dropWhile_eq_Nil_conv)
    moreover from "1.prems" have "f = s"
      by (subst (asm) split_on.simps) (simp only: Nil list.case list.set, simp)
    ultimately show ?thesis by simp
  next
    case (Cons x rest)
    with "1.prems" have "f = takeWhile (\<lambda>c. c \<noteq> sep) s \<or> f \<in> set (split_on sep rest)"
      by (subst (asm) split_on.simps) simp
    then show ?thesis
    proof
      assume "f = takeWhile (\<lambda>c. c \<noteq> sep) s"
      then show ?thesis using set_takeWhileD by fastforce
    next
      assume "f \<in> set (split_on sep rest)"
      with "1.IH" Cons show ?thesis by simp
    qed
  qed
qed

lemma replace1_NL: "NL \<notin> set (replace1 NL [SP] text)"
  by (induction "text") (auto simp: replace1_def)

lemma replace1_id: "old \<notin> set s \<Longrightarrow> replace1 old new s = s"
  by (induction s) (auto simp: replace1_def)

lemma replace1_DOT: "DOT \<notin> set text \<Longrightarrow> DOT \<notin> set (replace1 NL [SP] text)"
  by (induction "text") (auto simp: replace1_def)

lemma split_on_subset: "f \<in> set (split_on sep s) \<Longrightarrow> set f \<subseteq> set s"
proof (induction sep s rule: split_on.induct)
  case (1 sep s)
  show ?case
  proof (cases "dropWhile (\<lambda>c. c \<noteq> sep) s")
    case Nil
    from "1.prems" have "f = s"
      by (subst (asm) split_on.simps) (simp only: Nil list.case list.set, simp)
    then show ?thesis by simp
  next
    case (Cons x rest)
    have rest: "set rest \<subseteq> set s"
    proof
      fix c assume "c \<in> set rest"
      then have "c \<in> set (dropWhile (\<lambda>c. c \<noteq> sep) s)" by (simp add: Cons)
      then show "c \<in> set s" by (rule set_dropWhileD)
    qed
    from Cons "1.prems" have "f = takeWhile (\<lambda>c. c \<noteq> sep) s \<or> f \<in> set (split_on sep rest)"
      by (subst (asm) split_on.simps) simp
    then show ?thesis
    proof
      assume "f = takeWhile (\<lambda>c. c \<noteq> sep) s"
      then show ?thesis using set_takeWhileD by fastforce
    next
      assume "f \<in> set (split_on sep rest)"
      with "1.IH" Cons have "set f \<subseteq> set rest" by simp
      with rest show ?thesis by blast
    qed
  qed
qed

lemma sentences_bodies:
  "\<exists>gs. sentences t = map (\<lambda>g. g @ [DOT]) gs \<and> (\<forall>g\<in>set gs. sentence_body g)"
proof -
  let ?fs = "filter (\<lambda>s. strip s \<noteq> []) (split_on DOT (replace1 NL [SP] t))"
  have "sentence_body (strip f)" if "f \<in> set ?fs" for f
  proof -
    from that have ne: "strip f \<noteq> []" and f: "f \<in> set (split_on DOT (replace1 NL [SP] t))"
      by simp_all
    from f have "DOT \<notin> set f" by (rule split_on_frag)
    moreover have "NL \<notin> set f"
      using split_on_subset [OF f] replace1_NL [of t] by blast
    ultimately show ?thesis
      using ne strip_set [of f] strip_hd [OF ne] strip_last [OF ne]
      by (auto simp: sentence_body_def)
  qed
  then have "\<forall>g\<in>set (map strip ?fs). sentence_body g" by auto
  moreover have "sentences t = map (\<lambda>g. g @ [DOT]) (map strip ?fs)"
    by (simp add: sentences_def)
  ultimately show ?thesis by blast
qed


lemma join_append:
  "xs \<noteq> [] \<Longrightarrow> ys \<noteq> [] \<Longrightarrow> join sep (xs @ ys) = join sep xs @ sep @ join sep ys"
proof (induction sep xs rule: join.induct)
  case (2 sep x)
  then show ?case by (cases ys) simp_all
qed simp_all

lemma join_snoc_pair: "join sep (xs @ [a @ sep @ b]) = join sep (xs @ [a, b])"
  by (cases "xs = []") (simp_all add: join_append)

lemma join_chunk_loop:
  "\<forall>s\<in>set ss. s \<noteq> [] \<Longrightarrow>
   join [SP] (chunk_loop n ss chunks cur) =
     join [SP] (chunks @ (if cur \<noteq> [] then [cur] else []) @ ss)"
proof (induction ss arbitrary: chunks cur)
  case Nil
  then show ?case by simp
next
  case (Cons s ss)
  then have IH: "\<And>chunks cur. join [SP] (chunk_loop n ss chunks cur) =
     join [SP] (chunks @ (if cur \<noteq> [] then [cur] else []) @ ss)" and s: "s \<noteq> []"
    by simp_all
  show ?case
  proof (cases "cur = []")
    case True
    with s show ?thesis by (simp add: IH)
  next
    case False
    have "join [SP] ((chunks @ [cur @ [SP] @ s]) @ ss) = join [SP] ((chunks @ [cur, s]) @ ss)"
    proof (cases "ss = []")
      case True
      then show ?thesis using join_snoc_pair [of "[SP]" chunks cur s] by simp
    next
      case False
      then have "join [SP] ((chunks @ [cur @ [SP] @ s]) @ ss)
                 = join [SP] (chunks @ [cur @ [SP] @ s]) @ [SP] @ join [SP] ss"
        by (intro join_append) simp_all
      moreover from False have "join [SP] ((chunks @ [cur, s]) @ ss)
                 = join [SP] (chunks @ [cur, s]) @ [SP] @ join [SP] ss"
        by (intro join_append) simp_all
      ultimately show ?thesis
        using join_snoc_pair [of "[SP]" chunks cur s] by simp
    qed
    with False s show ?thesis by (simp add: IH)
  qed
qed

section \<open>The chunker keeps its sentences\<close>

lemma sentence_body_strip:
  "sentence_body g \<Longrightarrow> \<forall>c\<in>set w. isspace c \<Longrightarrow> strip (w @ g) = g"
  by (simp add: sentence_body_def strip_fixed)

lemma join_bodies_NL:
  "\<forall>g\<in>set gs. sentence_body g \<Longrightarrow> NL \<notin> set (join [SP] (map (\<lambda>g. g @ [DOT]) gs))"
  by (induction gs rule: induct_list012) (auto simp: sentence_body_def)

lemma fragments_join:
  assumes "\<forall>g\<in>set gs. sentence_body g" "\<forall>c\<in>set w. isspace c" "DOT \<notin> set w"
  shows "map (\<lambda>s. strip s @ [DOT])
           (filter (\<lambda>s. strip s \<noteq> []) (split_on DOT (w @ join [SP] (map (\<lambda>g. g @ [DOT]) gs))))
         = map (\<lambda>g. g @ [DOT]) gs"
  using assms
proof (induction gs arbitrary: w)
  case Nil
  then show ?case by (simp add: split_on_none strip_all_space)
next
  case (Cons g gs)
  from Cons.prems(1) have g: "sentence_body g" and gs: "\<forall>g\<in>set gs. sentence_body g"
    by simp_all
  have wg: "DOT \<notin> set (w @ g)" using g Cons.prems(3) by (simp add: sentence_body_def)
  have sg: "strip (w @ g) = g" using g Cons.prems(2) by (rule sentence_body_strip)
  have gne: "g \<noteq> []" using g by (simp add: sentence_body_def)
  show ?case
  proof (cases gs)
    case Nil
    have "split_on DOT (w @ join [SP] (map (\<lambda>g. g @ [DOT]) [g])) = [w @ g, []]"
      using split_on_sep [OF wg, of "[]"] by (simp add: split_on_none)
    moreover have "strip [] = []" by (simp add: strip_def)
    ultimately have "map (\<lambda>s. strip s @ [DOT])
           (filter (\<lambda>s. strip s \<noteq> []) (split_on DOT (w @ join [SP] (map (\<lambda>g. g @ [DOT]) [g]))))
         = [g @ [DOT]]"
      using sg gne by (simp only: list.map filter.simps if_True if_False simp_thms)
    then show ?thesis by (simp only: Nil list.map)
  next
    case (Cons g' gs')
    have "w @ join [SP] (map (\<lambda>g. g @ [DOT]) (g # gs))
          = (w @ g) @ DOT # ([SP] @ join [SP] (map (\<lambda>g. g @ [DOT]) gs))"
      by (simp add: Cons)
    then have "split_on DOT (w @ join [SP] (map (\<lambda>g. g @ [DOT]) (g # gs)))
          = (w @ g) # split_on DOT ([SP] @ join [SP] (map (\<lambda>g. g @ [DOT]) gs))"
      using split_on_sep [OF wg] by simp
    moreover have "map (\<lambda>s. strip s @ [DOT])
           (filter (\<lambda>s. strip s \<noteq> []) (split_on DOT ([SP] @ join [SP] (map (\<lambda>g. g @ [DOT]) gs))))
         = map (\<lambda>g. g @ [DOT]) gs"
      using gs by (intro Cons.IH) (simp_all add: isspace_SP)
    ultimately have "map (\<lambda>s. strip s @ [DOT])
           (filter (\<lambda>s. strip s \<noteq> []) (split_on DOT (w @ join [SP] (map (\<lambda>g. g @ [DOT]) (g # gs)))))
         = (g @ [DOT]) # map (\<lambda>g. g @ [DOT]) gs"
      using sg gne by (simp only: list.map filter.simps if_True if_False simp_thms)
    then show ?thesis by (simp only: list.map)
  qed
qed

lemma sentences_join:
  assumes "\<forall>g\<in>set gs. sentence_body g"
  shows "sentences (join [SP] (map (\<lambda>g. g @ [DOT]) gs)) = map (\<lambda>g. g @ [DOT]) gs"
proof -
  have "replace1 NL [SP] (join [SP] (map (\<lambda>g. g @ [DOT]) gs)) = join [SP] (map (\<lambda>g. g @ [DOT]) gs)"
    using join_bodies_NL [OF assms] by (rule replace1_id)
  then show ?thesis
    using fragments_join [OF assms, of "[]"] by (simp add: sentences_def)
qed

lemma chunk_loop_ok:
  "\<forall>s\<in>set ss. chunk_ok s \<Longrightarrow> \<forall>c\<in>set chunks. chunk_ok c \<Longrightarrow> cur = [] \<or> chunk_ok cur \<Longrightarrow>
   \<forall>c\<in>set (chunk_loop n ss chunks cur). chunk_ok c"
proof (induction ss arbitrary: chunks cur)
  case Nil
  then show ?case by auto
next
  case (Cons s ss)
  from Cons.prems(1) have s: "chunk_ok s" and ss: "\<forall>s\<in>set ss. chunk_ok s" by simp_all
  have j: "chunk_ok (cur @ [SP] @ s)" if "chunk_ok cur"
    using that s by (simp add: chunk_ok_def)
  show ?case
  proof (cases "cur = []")
    case True
    have "\<forall>c\<in>set (chunk_loop n ss chunks s). chunk_ok c"
      by (rule Cons.IH) (simp_all add: ss Cons.prems(2) s)
    with True show ?thesis by simp
  next
    case False
    with Cons.prems(3) have cur: "chunk_ok cur" by simp
    have a: "\<forall>c\<in>set (chunk_loop n ss (chunks @ [cur]) s). chunk_ok c"
      by (rule Cons.IH) (simp_all add: ss Cons.prems(2) s cur)
    have b: "\<forall>c\<in>set (chunk_loop n ss chunks (cur @ [SP] @ s)). chunk_ok c"
      by (rule Cons.IH) (simp_all add: ss Cons.prems(2) j [OF cur] del: append.simps)
    show ?thesis
    proof (cases "int (length cur) + int (length s) > n")
      case True
      with False a show ?thesis by (simp only: chunk_loop.simps simp_thms if_True)
    next
      case gt: False
      with False b show ?thesis by (simp only: chunk_loop.simps simp_thms if_True if_False)
    qed
  qed
qed

lemma sentences_ok: "\<forall>s\<in>set (sentences t). chunk_ok s"
proof -
  obtain gs where gs: "sentences t = map (\<lambda>g. g @ [DOT]) gs" "\<forall>g\<in>set gs. sentence_body g"
    using sentences_bodies by blast
  then show ?thesis by (auto simp: chunk_ok_def sentence_body_def)
qed

lemma split_text_chunks_ok: "\<forall>c\<in>set (split_text t n). chunk_ok c"
  unfolding split_text_def by (rule chunk_loop_ok) (simp_all add: sentences_ok)

lemma no_period_one_sentence:
  assumes "DOT \<notin> set t"
  shows "split_text t n =
           (if strip (replace1 NL [SP] t) = [] then [] else [strip (replace1 NL [SP] t) @ [DOT]])"
proof -
  have "split_on DOT (replace1 NL [SP] t) = [replace1 NL [SP] t]"
    using assms by (intro split_on_none replace1_DOT)
  then show ?thesis by (simp add: split_text_def sentences_def)
qed

section \<open>The steps of the normalizer\<close>

lemma no_ws_run_Cons:
  "no_ws_run (a # s) = ((s = [] \<or> \<not> (isspace a \<and> isspace (hd s))) \<and> no_ws_run s)"
  by (cases s) simp_all

lemma no_ws_run_append: "no_ws_run (a @ b) \<Longrightarrow> no_ws_run a \<and> no_ws_run b"
proof (induction a)
  case Nil
  then show ?case by simp
next
  case (Cons x a)
  from Cons.prems have "no_ws_run (a @ b)" by (simp add: no_ws_run_Cons)
  with Cons.IH have "no_ws_run a" "no_ws_run b" by simp_all
  moreover have "a = [] \<or> \<not> (isspace x \<and> isspace (hd a))"
    using Cons.prems by (cases a) (simp_all add: no_ws_run_Cons)
  ultimately show ?case by (simp add: no_ws_run_Cons)
qed

lemma no_ws_run_strip: assumes "no_ws_run s" shows "no_ws_run (strip s)"
proof -
  have "s = takeWhile isspace s @ dropWhile isspace s" by simp
  with assms have "no_ws_run (dropWhile isspace s)" using no_ws_run_append by metis
  moreover obtain b where "dropWhile isspace s = strip s @ b"
    unfolding strip_def using rstrip_prefix by blast
  ultimately show ?thesis using no_ws_run_append by metis
qed

lemma match_star_space: "re_match [(isspace, Star)] s = Some (length (takeWhile isspace s))"
  by (induction s) simp_all

lemma re_sub_whitespace_Cons:
  "re_sub whitespace_run repl (c # cs) =
     (if isspace c then repl (c # takeWhile isspace cs) @ re_sub whitespace_run repl (dropWhile isspace cs)
      else c # re_sub whitespace_run repl cs)"
  by (simp add: whitespace_run_def match_star_space dropWhile_eq_drop takeWhile_eq_take [symmetric])

lemma collapse_props:
  "no_ws_run (re_sub whitespace_run (\<lambda>m. [SP]) s) \<and>
   NL \<notin> set (re_sub whitespace_run (\<lambda>m. [SP]) s) \<and>
   (re_sub whitespace_run (\<lambda>m. [SP]) s \<noteq> [] \<and> isspace (hd (re_sub whitespace_run (\<lambda>m. [SP]) s))
      \<longrightarrow> s \<noteq> [] \<and> isspace (hd s))"
proof (induction s rule: length_induct)
  case (1 s)
  show ?case
  proof (cases s)
    case Nil
    then show ?thesis by (simp add: whitespace_run_def)
  next
    case (Cons c cs)
    show ?thesis
    proof (cases "isspace c")
      case True
      let ?d = "dropWhile isspace cs"
      let ?o = "re_sub whitespace_run (\<lambda>m. [SP]) ?d"
      have "length ?d < length s" using length_dropWhile_le [of isspace cs] Cons by simp
      with 1 have IH: "no_ws_run ?o" "NL \<notin> set ?o" "?o \<noteq> [] \<and> isspace (hd ?o) \<longrightarrow> ?d \<noteq> [] \<and> isspace (hd ?d)"
        by blast+
      have "\<not> (?d \<noteq> [] \<and> isspace (hd ?d))" using hd_dropWhile [of isspace cs] by blast
      with IH(3) have "?o = [] \<or> \<not> isspace (hd ?o)" by blast
      moreover have "re_sub whitespace_run (\<lambda>m. [SP]) s = SP # ?o"
        using True Cons by (simp add: re_sub_whitespace_Cons del: re_sub.simps)
      ultimately show ?thesis using IH(1,2) True Cons by (auto simp: no_ws_run_Cons)
    next
      case False
      let ?o = "re_sub whitespace_run (\<lambda>m. [SP]) cs"
      from 1 Cons have IH: "no_ws_run ?o" "NL \<notin> set ?o" by simp_all
      have "c \<noteq> NL" using False by (auto simp: isspace_def)
      moreover have "re_sub whitespace_run (\<lambda>m. [SP]) s = c # ?o"
        using False Cons by (simp add: re_sub_whitespace_Cons del: re_sub.simps)
      ultimately show ?thesis using IH False Cons by (auto simp: no_ws_run_Cons)
    qed
  qed
qed

lemma page_number_no_match: "NL \<notin> set s \<Longrightarrow> re_match (page_number db) s = None"
  by (cases s) (simp_all add: page_number_def)

lemma page_number_id: "NL \<notin> set s \<Longrightarrow> re_sub (page_number db) repl s = s"
proof (induction s)
  case Nil
  then show ?case using page_number_no_match [of "[]" db] by simp
next
  case (Cons c cs)
  then show ?case using page_number_no_match [of "c # cs" db] by simp
qed

lemma replace1_no_ws_run:
  assumes "\<not> isspace old" "new \<noteq> []" "\<forall>x\<in>set new. \<not> isspace x"
  shows "no_ws_run s \<Longrightarrow> no_ws_run (replace1 old new s) \<and>
           (s \<noteq> [] \<longrightarrow> replace1 old new s \<noteq> [] \<and>
              (isspace (hd (replace1 old new s)) \<longleftrightarrow> isspace (hd s)))"
proof (induction s)
  case Nil
  then show ?case by (simp add: replace1_def)
next
  case (Cons c cs)
  let ?o = "replace1 old new cs"
  from Cons.prems have cs: "no_ws_run cs" and adj: "cs = [] \<or> \<not> (isspace c \<and> isspace (hd cs))"
    by (simp_all add: no_ws_run_Cons)
  from Cons.IH [OF cs] have IH: "no_ws_run ?o"
    "cs \<noteq> [] \<longrightarrow> ?o \<noteq> [] \<and> (isspace (hd ?o) \<longleftrightarrow> isspace (hd cs))" by simp_all
  have nil: "cs = [] \<Longrightarrow> ?o = []" by (simp add: replace1_def)
  show ?case
  proof (cases "c = old")
    case False
    then have "replace1 old new (c # cs) = c # ?o" by (simp add: replace1_def)
    then show ?thesis using IH adj nil by (auto simp: no_ws_run_Cons)
  next
    case True
    have app: "no_ws_run (n @ ?o)" if "\<forall>x\<in>set n. \<not> isspace x" for n
      using that IH(1) by (induction n) (auto simp: no_ws_run_Cons)
    from True have "replace1 old new (c # cs) = new @ ?o" by (simp add: replace1_def)
    moreover have "hd (new @ ?o) = hd new" using assms(2) by simp
    moreover have "\<not> isspace (hd new)" using assms(2,3) by simp
    ultimately show ?thesis using app [OF assms(3)] assms(1,2) True by simp
  qed
qed

lemma punct_not_space: "is_punct c \<Longrightarrow> \<not> isspace c"
  by (auto simp: is_punct_def isspace_def)

lemma letter_not_space: "is_letter c \<Longrightarrow> \<not> isspace c"
  by (auto simp: is_letter_def isspace_def)

lemma re_sub_punct_Nil: "re_sub punctuation_letter space_between [] = []"
  by (simp add: punctuation_letter_def)

lemma re_sub_punct_single: "re_sub punctuation_letter space_between [c] = [c]"
  by (simp add: punctuation_letter_def)

lemma re_sub_punct_Cons2:
  "re_sub punctuation_letter space_between (p # l # s) =
     (if is_punct p \<and> is_letter l
      then p # SP # l # re_sub punctuation_letter space_between s
      else p # re_sub punctuation_letter space_between (l # s))"
  by (simp add: punctuation_letter_def space_between_def)

lemma punct_letter_props:
  "no_ws_run s \<Longrightarrow>
     no_ws_run (re_sub punctuation_letter space_between s) \<and>
     (s \<noteq> [] \<longrightarrow> re_sub punctuation_letter space_between s \<noteq> [] \<and>
        hd (re_sub punctuation_letter space_between s) = hd s)"
proof (induction s rule: length_induct)
  case (1 s)
  note IH = "1.IH" [rule_format]
  show ?case
  proof (cases s)
    case Nil
    then show ?thesis by (simp only: re_sub_punct_Nil no_ws_run.simps simp_thms)
  next
    case s: (Cons p t)
    show ?thesis
    proof (cases t)
      case Nil
      with s show ?thesis by (simp only: re_sub_punct_single) simp
    next
      case t: (Cons l u)
      let ?ou = "re_sub punctuation_letter space_between u"
      let ?ot = "re_sub punctuation_letter space_between t"
      from "1.prems" s have nt: "no_ws_run t" and adj: "\<not> (isspace p \<and> isspace (hd t))"
        by (simp_all add: no_ws_run_Cons t)
      from nt t have nu: "no_ws_run u" by (simp add: no_ws_run_Cons)
      have IHt: "no_ws_run ?ot" "?ot \<noteq> []" "hd ?ot = hd t"
        using IH [of t] nt s t by simp_all
      have IHu: "no_ws_run ?ou" using IH [of u] nu s t by simp
      show ?thesis
      proof (cases "is_punct p \<and> is_letter l")
        case True
        then have "re_sub punctuation_letter space_between s = p # SP # l # ?ou"
          by (simp add: s t re_sub_punct_Cons2 del: re_sub.simps)
        moreover have "no_ws_run (p # SP # l # ?ou)"
          using True IHu punct_not_space [of p] letter_not_space [of l]
          by (simp add: no_ws_run_Cons)
        ultimately show ?thesis using s by simp
      next
        case False
        then have "re_sub punctuation_letter space_between s = p # ?ot"
          unfolding s t re_sub_punct_Cons2 by (simp only: if_False)
        moreover have "no_ws_run (p # ?ot)"
          using IHt adj by (simp add: no_ws_run_Cons)
        ultimately show ?thesis using s by simp
      qed
    qed
  qed
qed

lemma ligature_step:
  assumes "no_ws_run s"
  shows "no_ws_run (replace1 LIG_FL (str_of ''fl'') (replace1 LIG_FI (str_of ''fi'') s))"
proof -
  have fi: "\<not> isspace LIG_FI" "str_of ''fi'' \<noteq> []" "\<forall>x\<in>set (str_of ''fi''). \<not> isspace x"
    by (simp_all add: isspace_def str_of_def)
  have fl: "\<not> isspace LIG_FL" "str_of ''fl'' \<noteq> []" "\<forall>x\<in>set (str_of ''fl''). \<not> isspace x"
    by (simp_all add: isspace_def str_of_def)
  have "no_ws_run (replace1 LIG_FI (str_of ''fi'') s)"
    using replace1_no_ws_run [OF fi assms] by (rule conjunct1)
  then show ?thesis
    using replace1_no_ws_run [OF fl] by blast
qed


section \<open>The synthesis loop\<close>

lemma pause_samples_small:
  assumes "0 \<le> sr" "sr < 2 ^ 53"
  shows "pause_samples sr = Some (sr div 2)"
proof -
  have "nat \<bar>sr\<bar> < 2 ^ 53" using assms by (simp add: nat_less_iff)
  then have r: "round53 (nat \<bar>sr\<bar>) = nat \<bar>sr\<bar>" by (simp add: round53_def)
  have "(2::nat) ^ 53 \<le> 2 ^ 1024" by (rule power_increasing) simp_all
  with \<open>nat \<bar>sr\<bar> < 2 ^ 53\<close> have "\<not> 2 ^ 1024 \<le> nat \<bar>sr\<bar>" by linarith
  with r have "float_of_int sr = Some (sgn sr * int (nat \<bar>sr\<bar>))"
    by (simp add: float_of_int_def Let_def)
  moreover have "sgn sr * int (nat \<bar>sr\<bar>) = sr" using assms(1) by (simp add: sgn_if)
  moreover have "sgn sr * (\<bar>sr\<bar> div 2) = sr div 2" using assms(1) by (simp add: sgn_if)
  ultimately show ?thesis by (simp add: pause_samples_def)
qed

lemma pause_3: "pause_samples 3 = Some 1" using pause_samples_small [of 3] by simp

lemma pause_4: "pause_samples 4 = Some 2" using pause_samples_small [of 4] by simp


lemma synth_loop_raise:
  "j < length (snd (synth_loop fits p v sr i chunks aa calls)) - length calls \<Longrightarrow>
   gen_raises (p (chunks ! j) v) \<Longrightarrow>
   synth_loop fits p v sr i chunks aa calls = (Inl (i + j + 1), calls @ take (j + 1) chunks)"
proof (induction chunks arbitrary: i aa calls j)
  case Nil
  then show ?case by simp
next
  case (Cons c chunks)
  obtain bufs r where g: "p c v = Gen bufs r" by (cases "p c v")
  show ?case
  proof (cases r)
    case True
    with g Cons.prems(1) have "j = 0" by simp
    with True g show ?thesis by simp
  next
    case False
    show ?thesis
    proof (cases "np_zeros fits (pause_samples sr) :: 'a list option")
      case None
      with g False Cons.prems(1) have "j = 0" by simp
      with Cons.prems(2) g False show ?thesis by simp
    next
      case (Some silence)
      have step: "synth_loop fits p v sr i (c # chunks) aa calls =
                  synth_loop fits p v sr (i + 1) chunks (aa @ bufs @ [silence]) (calls @ [c])"
        using g False Some by simp
      show ?thesis
      proof (cases j)
        case 0
        with Cons.prems(2) g False show ?thesis by simp
      next
        case (Suc j')
        from Cons.prems(1) have "j' < length (snd (synth_loop fits p v sr (i + 1) chunks
             (aa @ bufs @ [silence]) (calls @ [c]))) - length (calls @ [c])"
          unfolding step Suc by simp
        moreover from Cons.prems(2) have "gen_raises (p (chunks ! j') v)" by (simp add: Suc)
        ultimately have "synth_loop fits p v sr (i + 1) chunks (aa @ bufs @ [silence]) (calls @ [c])
            = (Inl (i + 1 + j' + 1), (calls @ [c]) @ take (j' + 1) chunks)"
          by (rule Cons.IH)
        then show ?thesis unfolding step Suc by simp
      qed
    qed
  qed
qed

lemma synth_loop_success:
  "synth_loop fits p v sr i chunks aa calls = (Inr au, calls') \<Longrightarrow>
   calls' = calls @ chunks \<and>
   (chunks \<noteq> [] \<longrightarrow> (\<exists>k. pause_samples sr = Some (int k) \<and>
      au = aa @ concat (map (\<lambda>c. gen_buffers (p c v) @ [replicate k 0]) chunks)))
   \<and> (chunks = [] \<longrightarrow> au = aa)"
proof (induction chunks arbitrary: i aa calls)
  case Nil
  then show ?case by simp
next
  case (Cons c chunks)
  obtain bufs r where g: "p c v = Gen bufs r" by (cases "p c v")
  from Cons.prems g have r: "\<not> r" by (auto split: if_splits)
  from Cons.prems g r obtain silence :: "'a list" where
    z: "np_zeros fits (pause_samples sr) = Some silence"
    by (cases "np_zeros fits (pause_samples sr) :: 'a list option") auto
  then obtain x where x: "pause_samples sr = Some x" "0 \<le> x" "silence = replicate (nat x) 0"
    by (auto simp: np_zeros_def split: option.splits if_splits)
  define k where "k = nat x"
  have k: "pause_samples sr = Some (int k)" "silence = replicate k 0"
    using x by (simp_all add: k_def)
  from Cons.prems g r z
  have rec: "synth_loop fits p v sr (i + 1) chunks (aa @ bufs @ [silence]) (calls @ [c]) = (Inr au, calls')"
    by simp
  note IH = Cons.IH [OF rec]
  have bufs: "gen_buffers (p c v) = bufs" using g by simp
  show ?case
  proof (cases "chunks = []")
    case True
    with IH show ?thesis using k bufs by auto
  next
    case False
    with IH obtain k' where k': "pause_samples sr = Some (int k')"
      "au = (aa @ bufs @ [silence]) @ concat (map (\<lambda>c. gen_buffers (p c v) @ [replicate k' 0]) chunks)"
      by blast
    with k have "k' = k" by simp
    with IH k' k bufs show ?thesis by auto
  qed
qed

lemma synth_loop_prefix:
  "\<exists>n. snd (synth_loop fits p v sr i chunks aa calls) = calls @ take n chunks"
proof (induction chunks arbitrary: i aa calls)
  case Nil
  then show ?case by simp
next
  case (Cons c chunks)
  obtain bufs r where g: "p c v = Gen bufs r" by (cases "p c v")
  have one: "calls @ [c] = calls @ take 1 (c # chunks)" by simp
  show ?case
  proof (cases "r \<or> (np_zeros fits (pause_samples sr) :: 'a list option) = None")
    case True
    then have "snd (synth_loop fits p v sr i (c # chunks) aa calls) = calls @ [c]"
      using g by auto
    with one show ?thesis by metis
  next
    case False
    then obtain silence :: "'a list" where z: "np_zeros fits (pause_samples sr) = Some silence"
      by auto
    from Cons.IH [of "i + 1" "aa @ bufs @ [silence]" "calls @ [c]"]
    obtain n where "snd (synth_loop fits p v sr (i + 1) chunks (aa @ bufs @ [silence]) (calls @ [c]))
        = (calls @ [c]) @ take n chunks" by blast
    then have "snd (synth_loop fits p v sr i (c # chunks) aa calls) = calls @ take (Suc n) (c # chunks)"
      using g False z by simp
    then show ?thesis by blast
  qed
qed

lemma concat_segments:
  "concat (concat (map (\<lambda>c. f c @ [g]) xs)) = concat (map (\<lambda>c. concat (f c) @ g) xs)"
  by (induction xs) simp_all

lemma length_segments:
  "length (concat (map (\<lambda>c. concat (f c) @ replicate k z) xs))
     = (\<Sum>c\<leftarrow>xs. (\<Sum>b\<leftarrow>f c. length b)) + length xs * k"
  by (induction xs) (simp_all add: length_concat)

lemma convert_success:
  assumes "KPipeline env lang_code = Some pipeline"
    and "result (convert_to_speech env t out v cs sr lang_code mc) = Inr ()"
  shows "\<exists>k. pause_samples sr = Some (int k) \<and>
     synthesized (convert_to_speech env t out v cs sr lang_code mc) = limit_chunks mc (split_text t cs) \<and>
     written (convert_to_speech env t out v cs sr lang_code mc)
       = Some (out, concat (map (\<lambda>c. concat (gen_buffers (pipeline c v)) @ replicate k 0)
                 (limit_chunks mc (split_text t cs))), sr)"
proof -
  let ?chunks = "limit_chunks mc (split_text t cs)"
  obtain res calls where sl: "synth_loop (np_zeros_fits env) pipeline v sr 0 ?chunks [] [] = (res, calls)"
    by (cases "synth_loop (np_zeros_fits env) pipeline v sr 0 ?chunks [] []")
  from assms have av: "kokoro_available env"
    by (auto simp: convert_to_speech_def split: if_splits)
  from assms av sl obtain au where au: "res = Inr au" "au \<noteq> []"
    by (auto simp: convert_to_speech_def Let_def split: if_splits sum.splits)
  from assms av sl au have w: "written (convert_to_speech env t out v cs sr lang_code mc)
      = Some (out, concat au, sr)" and s: "synthesized (convert_to_speech env t out v cs sr lang_code mc) = calls"
    by (auto simp: convert_to_speech_def Let_def split: if_splits)
  from synth_loop_success [OF sl [unfolded au(1)]] au(2)
  obtain k where k: "pause_samples sr = Some (int k)" "calls = ?chunks"
    "au = concat (map (\<lambda>c. gen_buffers (pipeline c v) @ [replicate k 0]) ?chunks)"
    by (cases "?chunks = []") auto
  show ?thesis using k w s by (auto simp: concat_segments)
qed


text \<open>When \<open>main\<close> reaches the conversion, the cap it passes on is the mapped one.\<close>

lemma main_reaches_convert:
  assumes "snd (main db fs env a) = Some out"
  shows "\<exists>t. extract_text db fs (arg_input a) = Inr t \<and>
           out = convert_to_speech env t (arg_output a) (arg_voice a) (arg_chunk_size a)
                   (arg_sample_rate a) (arg_lang a) (main_max_chunks (arg_max_chunks a))"
  using assms by (auto simp: main_def Let_def split: if_splits sum.splits)





section \<open>Claims about the chunker\<close>

lemmas chunker_eval =
  str_of_def split_text_def sentences_def replace1_def split_on.simps strip_def isspace_def

text \<open>
  Claim C1: for every chunk size of at least 1, every chunk is at most \<open>chunk_size\<close>
  long, unless it is a single sentence that alone is longer. The loop compares
  \<open>len(current_chunk) + len(sentence)\<close> with \<open>chunk_size\<close> and then joins the two with a
  space that it has not counted: with chunk size 10 the two sentences \<open>aaaa.\<close> and \<open>bbbb.\<close>,
  five characters each, end up in one chunk of eleven characters.
\<close>

theorem split_text_exceeds_chunk_size:
  "sentences (str_of ''aaaa. bbbb.'') = [str_of ''aaaa.'', str_of ''bbbb.''] \<and>
   split_text (str_of ''aaaa. bbbb.'') 10 = [str_of ''aaaa. bbbb.''] \<and>
   length (str_of ''aaaa. bbbb.'') = 11"
  by (simp add: chunker_eval)

text \<open>
  Claim C5: chunking is idempotent. Chunking the chunks of a text, joined by single
  spaces, with the same chunk size gives the same chunks again, for every text and every
  chunk size.
\<close>

theorem split_text_idempotent:
  "split_text (join [SP] (split_text t n)) n = split_text t n"
proof -
  obtain gs where gs: "sentences t = map (\<lambda>g. g @ [DOT]) gs" "\<forall>g\<in>set gs. sentence_body g"
    using sentences_bodies by blast
  have "join [SP] (split_text t n) = join [SP] (sentences t)"
    unfolding split_text_def using join_chunk_loop [of "sentences t" n "[]" "[]"]
    by (simp add: gs(1))
  then have "sentences (join [SP] (split_text t n)) = sentences t"
    using sentences_join [OF gs(2)] by (simp add: gs(1))
  then show ?thesis by (simp add: split_text_def)
qed

text \<open>
  Claim C10, as stated: every chunk is a non-empty string that ends with a period and
  contains no line feed, and an input without any period gives a single chunk, the
  trimmed input with a period appended. The last part fails where the input has a
  line feed inside, which becomes a space, and where the input is empty or all
  whitespace, which gives no chunk at all.
\<close>

theorem split_text_no_period_counterexample:
  "DOT \<notin> set (str_of ''a\<newline>b'') \<and>
   split_text (str_of ''a\<newline>b'') 5 = [str_of ''a b.''] \<and>
   split_text (str_of ''a\<newline>b'') 5 \<noteq> [strip (str_of ''a\<newline>b'') @ [DOT]] \<and>
   DOT \<notin> set (str_of '''') \<and>
   split_text (str_of '''') 5 = [] \<and>
   split_text (str_of '''') 5 \<noteq> [strip (str_of '''') @ [DOT]]"
  by (simp add: chunker_eval)

text \<open>
  Claim C10, amended: every chunk is a non-empty string that ends with a period and
  contains no line feed; an input without any period gives no chunk when it is empty or
  all whitespace, and otherwise a single chunk: the input with its line feeds replaced
  by spaces, trimmed, with a period appended.
\<close>

theorem split_text_chunk_shape:
  "(\<forall>c\<in>set (split_text t n). c \<noteq> [] \<and> last c = DOT \<and> NL \<notin> set c) \<and>
   (DOT \<notin> set t \<longrightarrow>
      split_text t n =
        (if strip (replace1 NL [SP] t) = [] then [] else [strip (replace1 NL [SP] t) @ [DOT]]))"
proof (rule conjI)
  show "\<forall>c\<in>set (split_text t n). c \<noteq> [] \<and> last c = DOT \<and> NL \<notin> set c"
  proof
    fix c assume "c \<in> set (split_text t n)"
    then have "chunk_ok c" using split_text_chunks_ok by blast
    then show "c \<noteq> [] \<and> last c = DOT \<and> NL \<notin> set c" by (simp add: chunk_ok_def)
  qed
next
  show "DOT \<notin> set t \<longrightarrow> split_text t n =
        (if strip (replace1 NL [SP] t) = [] then [] else [strip (replace1 NL [SP] t) @ [DOT]])"
    using no_period_one_sentence by blast
qed

theorem split_text_chunk_shape_witness:
  "str_of ''a b.'' \<in> set (split_text (str_of ''a\<newline>b'') 5) \<and>
   str_of ''a b.'' \<noteq> [] \<and> last (str_of ''a b.'') = DOT \<and> NL \<notin> set (str_of ''a b.'') \<and>
   DOT \<notin> set (str_of ''a\<newline>b'') \<and>
   strip (replace1 NL [SP] (str_of ''a\<newline>b'')) \<noteq> [] \<and>
   split_text (str_of ''a\<newline>b'') 5 = [strip (replace1 NL [SP] (str_of ''a\<newline>b'')) @ [DOT]]"
proof -
  have e: "split_text (str_of ''a\<newline>b'') 5 = [str_of ''a b.'']"
    "strip (replace1 NL [SP] (str_of ''a\<newline>b'')) = str_of ''a b''"
    "DOT \<notin> set (str_of ''a\<newline>b'')"
    by (simp_all add: chunker_eval)
  have s: "str_of ''a b.'' = [97, SP, 98, DOT]" "str_of ''a b'' = [97, SP, 98]"
    by (simp_all add: str_of_def)
  show ?thesis
    using split_text_chunk_shape [of "str_of ''a\<newline>b''" 5] by (simp add: e s)
qed

section \<open>Claims about the normalizer\<close>

text \<open>
  Claim C6: for every input text, no two neighbouring characters of the normalizer's
  output are both whitespace, whatever the digit and lower-casing tables are.
\<close>

theorem clean_text_no_whitespace_run: "no_ws_run (clean_text db t)"
proof -
  let ?t1 = "re_sub whitespace_run (\<lambda>m. [SP]) t"
  have 1: "no_ws_run ?t1" and nl: "NL \<notin> set ?t1" using collapse_props [of t] by simp_all
  have 2: "re_sub (page_number db) (\<lambda>m. [NL]) ?t1 = ?t1" using nl by (rule page_number_id)
  have 3: "no_ws_run (replace1 LIG_FL (str_of ''fl'') (replace1 LIG_FI (str_of ''fi'') ?t1))"
    using 1 by (rule ligature_step)
  then have "no_ws_run (re_sub punctuation_letter space_between
        (replace1 LIG_FL (str_of ''fl'') (replace1 LIG_FI (str_of ''fi'') ?t1)))"
    using punct_letter_props by blast
  then show ?thesis unfolding clean_text_def Let_def 2 by (rule no_ws_run_strip)
qed

text \<open>
  Claim C2: the normalizer removes every line that consists of digits only, between two
  line breaks, so that the digits of a page number do not reach the output. The code
  for it is there, under the comment \<open>Remove page numbers and other artifacts\<close>, and
  its pattern does remove such a line from a text that still has its line breaks. But
  it runs after the substitution that turns every run of whitespace, line breaks
  included, into one space, so it never finds a line break: the page number stays.
\<close>

theorem clean_text_keeps_page_number:
  "re_sub (page_number ascii_db) (\<lambda>m. [NL]) (str_of ''a\<newline>12\<newline>b'') = str_of ''a\<newline>b'' \<and>
   clean_text db (str_of ''a\<newline>12\<newline>b'') = str_of ''a 12 b''"
  by (simp add: clean_text_def whitespace_run_def page_number_def punctuation_letter_def
      is_punct_def is_letter_def replace1_def strip_def isspace_def str_of_def ascii_db_def)

section \<open>Claims about extraction\<close>

text \<open>
  Claim C7, as stated: for every path that does not exist, extraction fails with the
  NotFound error. \<open>extract_text\<close> picks the extractor by the extension before the
  extractor looks for the file, so a missing path with another extension fails with
  the UnsupportedFormat error.
\<close>

theorem extract_text_missing_unsupported_counterexample:
  "\<not> path_exists no_files (str_of ''book.txt'') \<and>
   extract_text ascii_db no_files (str_of ''book.txt'') = Inl UnsupportedFormat \<and>
   extract_text ascii_db no_files (str_of ''book.txt'') \<noteq> Inl NotFound"
  by (simp add: no_files_def extract_text_def get_extractor_def ascii_db_def splitext_ext_def
      rfind_def str_of_def)

text \<open>
  Claim C7, amended: for every path whose extension is not the supported one, whether
  it exists or not, extraction fails with the UnsupportedFormat error; for every path
  with the supported extension that does not exist, it fails with the NotFound error.
\<close>

theorem extract_text_errors:
  "(lower db (splitext_ext p) \<noteq> str_of ''.epub'' \<longrightarrow>
      extract_text db fs p = Inl UnsupportedFormat) \<and>
   (lower db (splitext_ext p) = str_of ''.epub'' \<and> \<not> path_exists fs p \<longrightarrow>
      extract_text db fs p = Inl NotFound)"
  by (simp add: extract_text_def get_extractor_def base_extract_def)

theorem extract_text_errors_witness:
  "lower ascii_db (splitext_ext (str_of ''book.txt'')) \<noteq> str_of ''.epub'' \<and>
   extract_text ascii_db no_files (str_of ''book.txt'') = Inl UnsupportedFormat \<and>
   lower ascii_db (splitext_ext (str_of ''dir.d/Book.EPUB'')) = str_of ''.epub'' \<and>
   \<not> path_exists no_files (str_of ''dir.d/Book.EPUB'') \<and>
   extract_text ascii_db no_files (str_of ''dir.d/Book.EPUB'') = Inl NotFound"
proof -
  have a: "lower ascii_db (splitext_ext (str_of ''book.txt'')) \<noteq> str_of ''.epub''"
    by (simp add: ascii_db_def splitext_ext_def rfind_def str_of_def)
  have b: "lower ascii_db (splitext_ext (str_of ''dir.d/Book.EPUB'')) = str_of ''.epub''"
    by (simp add: ascii_db_def splitext_ext_def rfind_def str_of_def)
  have c: "\<not> path_exists no_files (str_of ''dir.d/Book.EPUB'')" by (simp add: no_files_def)
  from extract_text_errors [of ascii_db "str_of ''book.txt''" no_files]
    extract_text_errors [of ascii_db "str_of ''dir.d/Book.EPUB''" no_files] a b c
  show ?thesis by simp
qed

section \<open>Claims about synthesis and assembly\<close>

lemmas run_eval =
  convert_to_speech_def test_engine_def limit_chunks_def np_zeros_def main_max_chunks_def Let_def

text \<open>
  Claim C3, as stated: the silence after every chunk has \<open>round(0.5 \<times> sample_rate)\<close>
  zero samples. The code takes \<open>int(0.5 * sample_rate)\<close>, which cuts the half off: at
  the sample rate 3 it gives one sample, where 1.5 rounds to 2 (half up and half to even
  alike), and the stream of one chunk of three samples is four samples long, not five.
\<close>

theorem silence_rounding_counterexample:
  "pause_samples 3 = Some 1 \<and> spec_pause_samples 3 = 2 \<and>
   written (convert_to_speech (test_engine []) (str_of ''Hi.'') (str_of ''out.wav'')
              (str_of ''af_heart'') 2000 3 (str_of ''a'') None)
     = Some (str_of ''out.wav'', [72, 105, 46, 0], 3)"
  by (simp add: pause_3 spec_pause_samples_def round_def run_eval chunker_eval)

text \<open>
  Claim C3, amended: in every run that succeeds, the silence appended after each
  processed chunk is \<open>int(0.5 \<times> sample_rate)\<close> zero samples, which is the sample rate
  divided by two with the fraction cut off for a rate from 0 below \<open>2 ^ 53\<close>; the stream
  written is, chunk by chunk in order, the buffers of the chunk and then that silence;
  and its length is the sum of the lengths of all buffers plus the number of chunks
  processed times the length of the silence.
\<close>

theorem audio_stream_layout:
  assumes "KPipeline env lang_code = Some pipeline"
    and "result (convert_to_speech env t out v cs sr lang_code mc) = Inr ()"
  shows "\<exists>k. pause_samples sr = Some (int k) \<and>
     (0 \<le> sr \<and> sr < 2 ^ 53 \<longrightarrow> int k = sr div 2) \<and>
     written (convert_to_speech env t out v cs sr lang_code mc)
       = Some (out,
               concat (map (\<lambda>c. concat (gen_buffers (pipeline c v)) @ replicate k 0)
                 (synthesized (convert_to_speech env t out v cs sr lang_code mc))),
               sr) \<and>
     length (concat (map (\<lambda>c. concat (gen_buffers (pipeline c v)) @ replicate k 0)
                 (synthesized (convert_to_speech env t out v cs sr lang_code mc))))
       = (\<Sum>c\<leftarrow>synthesized (convert_to_speech env t out v cs sr lang_code mc).
            (\<Sum>b\<leftarrow>gen_buffers (pipeline c v). length b))
         + length (synthesized (convert_to_speech env t out v cs sr lang_code mc)) * k"
proof -
  from convert_success [OF assms] obtain k where
    k: "pause_samples sr = Some (int k)"
    and s: "synthesized (convert_to_speech env t out v cs sr lang_code mc)
              = limit_chunks mc (split_text t cs)"
    and w: "written (convert_to_speech env t out v cs sr lang_code mc)
       = Some (out, concat (map (\<lambda>c. concat (gen_buffers (pipeline c v)) @ replicate k 0)
                 (limit_chunks mc (split_text t cs))), sr)"
    by blast
  have "int k = sr div 2" if "0 \<le> sr \<and> sr < 2 ^ 53"
    using pause_samples_small [of sr] that k by simp
  then show ?thesis using k w unfolding s by (intro exI [of _ k]) (simp add: length_segments)
qed

theorem audio_stream_layout_witness:
  "KPipeline (test_engine []) (str_of ''a'') \<noteq> None \<and>
   result (convert_to_speech (test_engine []) (str_of ''Hi. Yo.'') (str_of ''out.wav'')
             (str_of ''af_heart'') 3 4 (str_of ''a'') None) = Inr () \<and>
   (0::int) \<le> 4 \<and> (4::int) < 2 ^ 53 \<and>
   synthesized (convert_to_speech (test_engine []) (str_of ''Hi. Yo.'') (str_of ''out.wav'')
             (str_of ''af_heart'') 3 4 (str_of ''a'') None) = [str_of ''Hi.'', str_of ''Yo.''] \<and>
   written (convert_to_speech (test_engine []) (str_of ''Hi. Yo.'') (str_of ''out.wav'')
             (str_of ''af_heart'') 3 4 (str_of ''a'') None)
     = Some (str_of ''out.wav'', [72, 105, 46, 0, 0, 89, 111, 46, 0, 0], 4) \<and>
   length [72, 105, 46, 0, 0, 89, 111, 46, 0, 0 :: int] = (3 + 3) + 2 * 2"
proof -
  let ?p = "\<lambda>chunk voice. if chunk = [] then Gen [] True else Gen [map int chunk] False"
  have p: "KPipeline (test_engine []) (str_of ''a'') = Some ?p" by (simp add: test_engine_def)
  have r: "result (convert_to_speech (test_engine []) (str_of ''Hi. Yo.'') (str_of ''out.wav'')
             (str_of ''af_heart'') 3 4 (str_of ''a'') None) = Inr ()"
    by (simp add: pause_4 run_eval chunker_eval)
  have s: "synthesized (convert_to_speech (test_engine []) (str_of ''Hi. Yo.'') (str_of ''out.wav'')
             (str_of ''af_heart'') 3 4 (str_of ''a'') None) = [str_of ''Hi.'', str_of ''Yo.'']"
    by (simp add: pause_4 run_eval chunker_eval)
  from audio_stream_layout [OF p r] obtain k where
    "pause_samples 4 = Some (int k)"
    "written (convert_to_speech (test_engine []) (str_of ''Hi. Yo.'') (str_of ''out.wav'')
             (str_of ''af_heart'') 3 4 (str_of ''a'') None)
       = Some (str_of ''out.wav'',
               concat (map (\<lambda>c. concat (gen_buffers (?p c (str_of ''af_heart''))) @ replicate k 0)
                 (synthesized (convert_to_speech (test_engine []) (str_of ''Hi. Yo.'') (str_of ''out.wav'')
             (str_of ''af_heart'') 3 4 (str_of ''a'') None))), 4)"
    by blast
  then have "k = 2" and "written (convert_to_speech (test_engine []) (str_of ''Hi. Yo.'') (str_of ''out.wav'')
             (str_of ''af_heart'') 3 4 (str_of ''a'') None)
     = Some (str_of ''out.wav'', [72, 105, 46, 0, 0, 89, 111, 46, 0, 0], 4)"
    unfolding s by (simp_all add: pause_4 str_of_def numeral_2_eq_2)
  with p r s show ?thesis by simp
qed

text \<open>
  Claim C4: when the synthesis call for a chunk raises, the run ends at once with a
  failure that names the chunk (the number printed is the chunk's position counted from
  1), no later chunk is processed, and no file is written. Here \<open>i\<close> counts from 0 and
  the call is one that the run made.
\<close>

theorem synthesis_failure_aborts:
  assumes "KPipeline env lang_code = Some pipeline"
    and "i < length (synthesized (convert_to_speech env t out v cs sr lang_code mc))"
    and "gen_raises (pipeline (synthesized (convert_to_speech env t out v cs sr lang_code mc) ! i) v)"
  shows "result (convert_to_speech env t out v cs sr lang_code mc) = Inl (SynthesisFailure (i + 1)) \<and>
         synthesized (convert_to_speech env t out v cs sr lang_code mc)
           = take (i + 1) (limit_chunks mc (split_text t cs)) \<and>
         written (convert_to_speech env t out v cs sr lang_code mc) = None"
proof -
  let ?chunks = "limit_chunks mc (split_text t cs)"
  let ?run = "convert_to_speech env t out v cs sr lang_code mc"
  let ?loop = "synth_loop (np_zeros_fits env) pipeline v sr 0 ?chunks [] []"
  from assms(2) have av: "kokoro_available env"
    by (auto simp: convert_to_speech_def split: if_splits)
  have syn: "synthesized ?run = snd ?loop"
    using av assms(1)
    by (cases ?loop) (auto simp: convert_to_speech_def Let_def split: sum.splits)
  obtain n where n: "snd ?loop = take n ?chunks"
    using synth_loop_prefix [of "np_zeros_fits env" pipeline v sr 0 ?chunks "[]" "[]"] by auto
  from assms(2) have i: "i < length (snd ?loop) - length ([] :: pystr list)"
    by (simp add: syn)
  from assms(2) have "snd ?loop ! i = ?chunks ! i" unfolding syn n by simp
  with assms(3) have "gen_raises (pipeline (?chunks ! i) v)" by (simp add: syn)
  with i have "?loop = (Inl (0 + i + 1), [] @ take (i + 1) ?chunks)"
    by (rule synth_loop_raise)
  then show ?thesis using av assms(1) by (simp add: convert_to_speech_def Let_def)
qed

theorem synthesis_failure_aborts_witness:
  "KPipeline (test_engine (str_of ''C.'')) (str_of ''a'') \<noteq> None \<and>
   synthesized (convert_to_speech (test_engine (str_of ''C.'')) (str_of ''A. B. C. D. E.'')
      (str_of ''out.wav'') (str_of ''af_heart'') 2 4 (str_of ''a'') None)
     = [str_of ''A.'', str_of ''B.'', str_of ''C.''] \<and>
   (2::nat) < length [str_of ''A.'', str_of ''B.'', str_of ''C.''] \<and>
   split_text (str_of ''A. B. C. D. E.'') 2
     = [str_of ''A.'', str_of ''B.'', str_of ''C.'', str_of ''D.'', str_of ''E.''] \<and>
   result (convert_to_speech (test_engine (str_of ''C.'')) (str_of ''A. B. C. D. E.'')
      (str_of ''out.wav'') (str_of ''af_heart'') 2 4 (str_of ''a'') None)
     = Inl (SynthesisFailure 3) \<and>
   written (convert_to_speech (test_engine (str_of ''C.'')) (str_of ''A. B. C. D. E.'')
      (str_of ''out.wav'') (str_of ''af_heart'') 2 4 (str_of ''a'') None) = None"
proof -
  let ?p = "\<lambda>chunk voice. if chunk = str_of ''C.'' then Gen [] True else Gen [map int chunk] False"
  let ?run = "convert_to_speech (test_engine (str_of ''C.'')) (str_of ''A. B. C. D. E.'')
      (str_of ''out.wav'') (str_of ''af_heart'') 2 4 (str_of ''a'') None"
  have p: "KPipeline (test_engine (str_of ''C.'')) (str_of ''a'') = Some ?p"
    by (simp add: test_engine_def)
  have c: "split_text (str_of ''A. B. C. D. E.'') 2
     = [str_of ''A.'', str_of ''B.'', str_of ''C.'', str_of ''D.'', str_of ''E.'']"
    by (simp add: chunker_eval)
  have s: "synthesized ?run = [str_of ''A.'', str_of ''B.'', str_of ''C.'']"
    unfolding convert_to_speech_def c by (simp add: pause_4 run_eval str_of_def)
  have i: "2 < length (synthesized ?run)" by (simp add: s)
  have g: "gen_raises (?p (synthesized ?run ! 2) (str_of ''af_heart''))" by (simp add: s)
  from synthesis_failure_aborts [OF p i g]
  have r: "result ?run = Inl (SynthesisFailure 3)" "written ?run = None" by simp_all
  show ?thesis unfolding r s c p by simp
qed

text \<open>
  Claim C8: the empty text gives no chunks; and when the list of audio segments is empty
  after the loop, the run fails with the message that no audio was generated and writes
  no file. For the empty text this is the outcome whenever the engine is available and
  starts.
\<close>

theorem no_chunks_no_audio:
  "split_text [] n = [] \<and>
   (kokoro_available env \<and> KPipeline env lang_code = Some pipeline \<and>
      fst (synth_loop (np_zeros_fits env) pipeline v sr 0 (limit_chunks mc (split_text t cs)) [] []) = Inr []
    \<longrightarrow> result (convert_to_speech env t out v cs sr lang_code mc) = Inl NoAudioProduced \<and>
        written (convert_to_speech env t out v cs sr lang_code mc) = None) \<and>
   (kokoro_available env \<and> KPipeline env lang_code = Some pipeline
    \<longrightarrow> result (convert_to_speech env [] out v cs sr lang_code mc) = Inl NoAudioProduced \<and>
        synthesized (convert_to_speech env [] out v cs sr lang_code mc) = [] \<and>
        written (convert_to_speech env [] out v cs sr lang_code mc) = None)"
proof (intro conjI impI)
  show e: "split_text [] n = []" for n
    by (simp add: split_text_def sentences_def replace1_def split_on.simps strip_def)
  {
    assume "kokoro_available env \<and> KPipeline env lang_code = Some pipeline \<and>
      fst (synth_loop (np_zeros_fits env) pipeline v sr 0 (limit_chunks mc (split_text t cs)) [] []) = Inr []"
    then show "result (convert_to_speech env t out v cs sr lang_code mc) = Inl NoAudioProduced"
      and "written (convert_to_speech env t out v cs sr lang_code mc) = None"
      by (cases "synth_loop (np_zeros_fits env) pipeline v sr 0 (limit_chunks mc (split_text t cs)) [] []";
          simp add: convert_to_speech_def Let_def)+
  }
  have l: "limit_chunks mc [] = []" by (simp add: limit_chunks_def split: option.splits)
  {
    assume "kokoro_available env \<and> KPipeline env lang_code = Some pipeline"
    then show "result (convert_to_speech env [] out v cs sr lang_code mc) = Inl NoAudioProduced"
      and "synthesized (convert_to_speech env [] out v cs sr lang_code mc) = []"
      and "written (convert_to_speech env [] out v cs sr lang_code mc) = None"
      by (simp_all add: convert_to_speech_def Let_def e l)
  }
qed

theorem no_chunks_no_audio_witness:
  "kokoro_available (test_engine []) \<and> KPipeline (test_engine []) (str_of ''a'') \<noteq> None \<and>
   split_text (str_of '' '') 2000 = [] \<and>
   result (convert_to_speech (test_engine []) (str_of '' '') (str_of ''out.wav'')
      (str_of ''af_heart'') 2000 24000 (str_of ''a'') None) = Inl NoAudioProduced \<and>
   written (convert_to_speech (test_engine []) (str_of '' '') (str_of ''out.wav'')
      (str_of ''af_heart'') 2000 24000 (str_of ''a'') None) = None \<and>
   result (convert_to_speech (test_engine []) [] (str_of ''out.wav'')
      (str_of ''af_heart'') 2000 24000 (str_of ''a'') None) = Inl NoAudioProduced \<and>
   written (convert_to_speech (test_engine []) [] (str_of ''out.wav'')
      (str_of ''af_heart'') 2000 24000 (str_of ''a'') None) = None"
proof -
  let ?p = "\<lambda>chunk voice. if chunk = [] then Gen [] True else Gen [map int chunk] False"
  have a: "kokoro_available (test_engine [])"
    and p: "KPipeline (test_engine []) (str_of ''a'') = Some ?p"
    by (simp_all add: test_engine_def)
  have c: "split_text (str_of '' '') 2000 = []" by (simp add: chunker_eval)
  have f: "fst (synth_loop (np_zeros_fits (test_engine [])) ?p (str_of ''af_heart'') 24000 0
             (limit_chunks None (split_text (str_of '' '') 2000)) [] []) = Inr []"
    by (simp add: c limit_chunks_def)
  from no_chunks_no_audio [of 2000 "test_engine []" "str_of ''a''" ?p "str_of ''af_heart''" 24000 None
      "str_of '' ''" 2000 "str_of ''out.wav''"] a p c f
  show ?thesis by simp
qed




end
